theory Spec2Isabelle
  imports Complex_Main "HOL-Library.Word"
begin

section \<open>JavaScript strings\<close>

text \<open>
  The service in \<^verbatim>\<open>src/src/pdfService.ts\<close> works on JavaScript strings: sequences of
  16-bit UTF-16 code units. \<^verbatim>\<open>length\<close>, \<^verbatim>\<open>slice\<close>, \<^verbatim>\<open>lastIndexOf\<close>, \<^verbatim>\<open>trim\<close> and the
  regular expressions of the file (none has the \<^verbatim>\<open>u\<close> flag) all count and compare code
  units, so a string is a list of 16-bit words. Indices are JavaScript numbers holding
  integers far below \<open>2^53\<close>; they are modelled as \<open>int\<close> (they may be compared with 0
  and, for \<^verbatim>\<open>slice\<close>, be negative).
\<close>

type_synonym jschar = "16 word"
type_synonym jsstring = "jschar list"

abbreviation NL :: jschar where "NL \<equiv> 0x0A"
abbreviation SP :: jschar where "SP \<equiv> 0x20"
abbreviation TAB :: jschar where "TAB \<equiv> 0x09"
abbreviation DOT :: jschar where "DOT \<equiv> 0x2E"

text \<open>An ASCII literal as a JavaScript string (one code unit per character).\<close>

definition js :: "string \<Rightarrow> jsstring" where
  "js s = map (\<lambda>c. of_nat (of_char c)) s"

text \<open>
  \<^verbatim>\<open>String.prototype.trim\<close> removes leading and trailing WhiteSpace and LineTerminator
  code points (ECMAScript 2015 and later).
\<close>

definition is_ws :: "jschar \<Rightarrow> bool" where
  "is_ws c \<longleftrightarrow>
     (0x09 \<le> c \<and> c \<le> 0x0D) \<or> c = 0x20 \<or> c = 0xA0 \<or> c = 0x1680 \<or>
     (0x2000 \<le> c \<and> c \<le> 0x200A) \<or> c = 0x2028 \<or> c = 0x2029 \<or> c = 0x202F \<or>
     c = 0x205F \<or> c = 0x3000 \<or> c = 0xFEFF"

definition trim :: "jsstring \<Rightarrow> jsstring" where
  "trim s = rev (dropWhile is_ws (rev (dropWhile is_ws s)))"

text \<open>
  \<^verbatim>\<open>String.prototype.slice(start, end)\<close>: a negative index counts from the end, both
  indices are clamped to the string, and an empty range gives the empty string.
\<close>

definition js_slice :: "jsstring \<Rightarrow> int \<Rightarrow> int \<Rightarrow> jsstring" where
  "js_slice s start end =
     (let len = int (length s);
          from = (if start < 0 then max (len + start) 0 else min start len);
          to = (if end < 0 then max (len + end) 0 else min end len)
      in if to \<le> from then [] else take (nat (to - from)) (drop (nat from) s))"

text \<open>
  \<^verbatim>\<open>String.prototype.lastIndexOf(pat)\<close> with no position: the largest index at which
  \<open>pat\<close> occurs in \<open>s\<close>, or \<open>-1\<close>.
\<close>

definition occurs_at :: "jsstring \<Rightarrow> jsstring \<Rightarrow> nat \<Rightarrow> bool" where
  "occurs_at s pat k \<longleftrightarrow> take (length pat) (drop k s) = pat"

definition lastIndexOf :: "jsstring \<Rightarrow> jsstring \<Rightarrow> int" where
  "lastIndexOf s pat =
     (case filter (occurs_at s pat) (rev [0 ..< length s + 1 - length pat]) of
        [] \<Rightarrow> - 1
      | k # _ \<Rightarrow> int k)"

text \<open>\<^verbatim>\<open>split("\n")\<close> and \<^verbatim>\<open>join("\n")\<close>.\<close>

fun split_nl :: "jsstring \<Rightarrow> jsstring list" where
  "split_nl [] = [[]]"
| "split_nl (c # cs) =
     (if c = NL then [] # split_nl cs
      else (case split_nl cs of l # ls \<Rightarrow> (c # l) # ls | [] \<Rightarrow> [[c]]))"

fun join_nl :: "jsstring list \<Rightarrow> jsstring" where
  "join_nl [] = []"
| "join_nl [l] = l"
| "join_nl (l # ls) = l @ NL # join_nl ls"

section \<open>Configuration\<close>

text \<open>The \<^verbatim>\<open>CONFIG\<close> object of the source.\<close>

definition MIN_TEXT_LENGTH :: nat where "MIN_TEXT_LENGTH = 50"
definition MIN_LETTER_RATIO :: rat where "MIN_LETTER_RATIO = 15 / 100"
definition CHUNK_SIZE :: int where "CHUNK_SIZE = 6000"
definition CHUNK_OVERLAP :: int where "CHUNK_OVERLAP = 500"

section \<open>cleanText\<close>

text \<open>
  \<^verbatim>\<open>
  function cleanText(text: string): string {
    if (!text) return "";
    return text
      .replace(/[\x00-\x09\x0B\x0C\x0E-\x1F\x7F]/g, "")
      .replace(/[ \t]+/g, " ")
      .replace(/\n{3,}/g, "\n\n")
      .split("\n")
      .map(line => line.trim())
      .join("\n")
      .trim();
  }
  \<close>
  Each \<^verbatim>\<open>replace\<close> with a global regular expression is one left-to-right pass; \<^verbatim>\<open>+\<close> and
  \<^verbatim>\<open>{3,}\<close> are greedy, so a match is a maximal run.
\<close>

definition is_ctrl :: "jschar \<Rightarrow> bool" where
  "is_ctrl c \<longleftrightarrow> c \<le> 0x09 \<or> c = 0x0B \<or> c = 0x0C \<or> (0x0E \<le> c \<and> c \<le> 0x1F) \<or> c = 0x7F"

definition strip_ctrl :: "jsstring \<Rightarrow> jsstring" where
  "strip_ctrl s = filter (\<lambda>c. \<not> is_ctrl c) s"

definition is_blank :: "jschar \<Rightarrow> bool" where
  "is_blank c \<longleftrightarrow> c = SP \<or> c = TAB"

function collapse_blanks :: "jsstring \<Rightarrow> jsstring" where
  "collapse_blanks [] = []"
| "collapse_blanks (c # cs) =
     (if is_blank c then SP # collapse_blanks (dropWhile is_blank cs)
      else c # collapse_blanks cs)"
  by pat_completeness auto
termination
  by (relation "measure length") (auto simp: less_Suc_eq_le length_dropWhile_le)

function collapse_newlines :: "jsstring \<Rightarrow> jsstring" where
  "collapse_newlines [] = []"
| "collapse_newlines (c # cs) =
     (if c = NL then
        (let run = c # takeWhile (\<lambda>d. d = NL) cs
         in (if 3 \<le> length run then [NL, NL] else run)
            @ collapse_newlines (dropWhile (\<lambda>d. d = NL) cs))
      else c # collapse_newlines cs)"
  by pat_completeness auto
termination
  by (relation "measure length") (auto simp: less_Suc_eq_le length_dropWhile_le)

definition cleanText :: "jsstring \<Rightarrow> jsstring" where
  "cleanText s =
     (if s = [] then []
      else trim (join_nl (map trim (split_nl (collapse_newlines (collapse_blanks (strip_ctrl s)))))))"

section \<open>The quality classifier\<close>

text \<open>
  \<^verbatim>\<open>(text.match(/[...]/g) || []).length\<close> counts the code units of a class;
  \<^verbatim>\<open>text.match(/[...]{3,}/g)\<close> lists the maximal runs of at least three code units of a
  class (the quantifier is greedy and matches do not overlap).
\<close>

definition is_arabic_letter :: "jschar \<Rightarrow> bool" where
  "is_arabic_letter c \<longleftrightarrow>
     (0x0600 \<le> c \<and> c \<le> 0x06FF) \<or> (0x0750 \<le> c \<and> c \<le> 0x077F) \<or> (0x08A0 \<le> c \<and> c \<le> 0x08FF)"

definition is_latin_letter :: "jschar \<Rightarrow> bool" where
  "is_latin_letter c \<longleftrightarrow>
     (0x61 \<le> c \<and> c \<le> 0x7A) \<or> (0x41 \<le> c \<and> c \<le> 0x5A) \<or> (0xC0 \<le> c \<and> c \<le> 0xFF)"

definition is_digit :: "jschar \<Rightarrow> bool" where
  "is_digit c \<longleftrightarrow> 0x30 \<le> c \<and> c \<le> 0x39"

definition is_arabic_word_char :: "jschar \<Rightarrow> bool" where
  "is_arabic_word_char c \<longleftrightarrow> (0x0600 \<le> c \<and> c \<le> 0x06FF) \<or> (0x0750 \<le> c \<and> c \<le> 0x077F)"

definition count_matches :: "(jschar \<Rightarrow> bool) \<Rightarrow> jsstring \<Rightarrow> nat" where
  "count_matches P s = length (filter P s)"

function count_runs3 :: "(jschar \<Rightarrow> bool) \<Rightarrow> jsstring \<Rightarrow> nat" where
  "count_runs3 P [] = 0"
| "count_runs3 P (c # cs) =
     (if P c then
        (if 3 \<le> length (c # takeWhile P cs) then 1 else 0) + count_runs3 P (dropWhile P cs)
      else count_runs3 P cs)"
  by pat_completeness auto
termination
  by (relation "measure (\<lambda>(P, s). length s)") (auto simp: less_Suc_eq_le length_dropWhile_le)

text \<open>
  The ratios are JavaScript numbers (IEEE doubles) in the source; the model computes them
  as exact rationals. For the comparisons of a ratio with a literal this changes nothing:
  the quotient of two integers below \<open>2^53\<close> is the double nearest to the rational
  quotient, the literal \<^verbatim>\<open>0.15\<close> is the double nearest to \<open>15/100\<close>, and rounding to
  nearest is monotone. A quotient equal to \<open>15/100\<close> is therefore the same double as the
  literal, and a quotient below \<open>15/100\<close> is below it by at least \<open>1 / (20 * length)\<close>,
  far more than the spacing of the doubles around \<open>0.15\<close> for every length a string can
  have. The product \<^verbatim>\<open>expectedWords * 0.1\<close> of the source is rounded; the model's is exact.
\<close>

definition totalLetters :: "jsstring \<Rightarrow> nat" where
  "totalLetters s = count_matches is_arabic_letter s + count_matches is_latin_letter s"

definition letterRatio :: "jsstring \<Rightarrow> rat" where
  "letterRatio s = of_nat (totalLetters s) / of_nat (length s)"

definition digitRatio :: "jsstring \<Rightarrow> rat" where
  "digitRatio s = of_nat (count_matches is_digit s) / of_nat (length s)"

definition totalWords :: "jsstring \<Rightarrow> nat" where
  "totalWords s = count_runs3 is_arabic_word_char s + count_runs3 is_latin_letter s"

definition expectedWords :: "jsstring \<Rightarrow> rat" where
  "expectedWords s = of_nat (length s) / 10"

text \<open>
  \<^verbatim>\<open>
  function containsRealWords(text: string): boolean {
    if (!text || text.length < 20) return false;
    ...
    if (digitRatio > 0.5 && letterRatio < 0.15) return false;
    if (letterRatio < CONFIG.MIN_LETTER_RATIO) return false;
    ...
    const expectedWords = totalChars / 10;
    if (totalWords < expectedWords * 0.1) return false;
    return true;
  }
  \<close>
\<close>

definition containsRealWords :: "jsstring \<Rightarrow> bool" where
  "containsRealWords s =
     (if s = [] \<or> length s < 20 then False
      else if digitRatio s > 5 / 10 \<and> letterRatio s < 15 / 100 then False
      else if letterRatio s < MIN_LETTER_RATIO then False
      else if of_nat (totalWords s) < expectedWords s * (1 / 10) then False
      else True)"

definition isTextQualityGood :: "jsstring \<Rightarrow> bool" where
  "isTextQualityGood s =
     (if s = [] \<or> length (trim s) < MIN_TEXT_LENGTH then False else containsRealWords s)"

section \<open>chunkText\<close>

text \<open>
  \<^verbatim>\<open>
  function chunkText(text: string): string[] {
    if (!text || text.length === 0) return [];
    if (text.length <= CONFIG.CHUNK_SIZE) return [text];
    const chunks: string[] = [];
    let startIndex = 0;
    while (startIndex < text.length) {
      let endIndex = startIndex + CONFIG.CHUNK_SIZE;
      if (endIndex < text.length) {
        const searchStart = Math.max(startIndex + CONFIG.CHUNK_SIZE - 200, startIndex);
        const searchEnd = Math.min(startIndex + CONFIG.CHUNK_SIZE + 200, text.length);
        const searchZone = text.slice(searchStart, searchEnd);
        const breakPoints = [
          searchZone.lastIndexOf(". "),
          searchZone.lastIndexOf(".\n"),
          searchZone.lastIndexOf("\n\n"),
        ].filter(i => i !== -1);
        if (breakPoints.length > 0) {
          endIndex = searchStart + Math.max(...breakPoints) + 1;
        }
      }
      const chunk = text.slice(startIndex, endIndex).trim();
      if (chunk.length > 0) chunks.push(chunk);
      startIndex = endIndex - CONFIG.CHUNK_OVERLAP;
      if (startIndex <= 0 || startIndex >= text.length - 100) startIndex = endIndex;
    }
    return chunks;
  }
  \<close>
  One iteration of the loop is split into the computation of \<open>endIndex\<close>
  (\<open>chunk_end\<close>) and of the next \<open>startIndex\<close> (\<open>next_start\<close>).
\<close>

definition breakPoints :: "jsstring \<Rightarrow> int list" where
  "breakPoints searchZone =
     filter (\<lambda>i. i \<noteq> - 1)
       [lastIndexOf searchZone [DOT, SP],
        lastIndexOf searchZone [DOT, NL],
        lastIndexOf searchZone [NL, NL]]"

definition chunk_end :: "jsstring \<Rightarrow> int \<Rightarrow> int" where
  "chunk_end text startIndex =
     (let endIndex = startIndex + CHUNK_SIZE in
      if endIndex < int (length text) then
        (let searchStart = max (startIndex + CHUNK_SIZE - 200) startIndex;
             searchEnd = min (startIndex + CHUNK_SIZE + 200) (int (length text));
             searchZone = js_slice text searchStart searchEnd
         in case breakPoints searchZone of
              [] \<Rightarrow> endIndex
            | b # bs \<Rightarrow> searchStart + fold max bs b + 1)
      else endIndex)"

definition next_start :: "jsstring \<Rightarrow> int \<Rightarrow> int" where
  "next_start text endIndex =
     (let startIndex = endIndex - CHUNK_OVERLAP in
      if startIndex \<le> 0 \<or> startIndex \<ge> int (length text) - 100 then endIndex
      else startIndex)"

definition push_chunk :: "jsstring list \<Rightarrow> jsstring \<Rightarrow> jsstring list" where
  "push_chunk chunks chunk = (if length chunk > 0 then chunks @ [chunk] else chunks)"

subsection \<open>The loop advances\<close>

lemma lastIndexOf_range:
  "lastIndexOf s pat = - 1 \<or> (0 \<le> lastIndexOf s pat \<and> lastIndexOf s pat + int (length pat) \<le> int (length s))"
proof (cases "filter (occurs_at s pat) (rev [0 ..< length s + 1 - length pat])")
  case Nil
  then show ?thesis by (simp add: lastIndexOf_def)
next
  case (Cons k ks)
  then have "k \<in> set (filter (occurs_at s pat) (rev [0 ..< length s + 1 - length pat]))"
    by simp
  then have "k < length s + 1 - length pat" by simp
  moreover have "lastIndexOf s pat = int k" using Cons by (simp add: lastIndexOf_def)
  ultimately show ?thesis by auto
qed

lemma breakPoints_range:
  assumes "b \<in> set (breakPoints z)"
  shows "0 \<le> b \<and> b + 2 \<le> int (length z)"
proof -
  from assms have "b \<noteq> - 1" and
    "b = lastIndexOf z [DOT, SP] \<or> b = lastIndexOf z [DOT, NL] \<or> b = lastIndexOf z [NL, NL]"
    by (auto simp: breakPoints_def split: if_splits)
  then show ?thesis
    using lastIndexOf_range [of z "[DOT, SP]"] lastIndexOf_range [of z "[DOT, NL]"]
      lastIndexOf_range [of z "[NL, NL]"]
    by auto
qed

lemma fold_max_range:
  "\<forall>x \<in> set (b # bs). lo \<le> x \<and> x \<le> hi \<Longrightarrow> lo \<le> fold max bs (b::int) \<and> fold max bs b \<le> hi"
  by (induction bs arbitrary: b) auto

lemma chunk_end_lower: "startIndex + 5801 \<le> chunk_end text startIndex"
proof -
  define z where "z = js_slice text (max (startIndex + CHUNK_SIZE - 200) startIndex)
                 (min (startIndex + CHUNK_SIZE + 200) (int (length text)))"
  show ?thesis
  proof (cases "breakPoints z")
    case Nil
    then show ?thesis by (simp add: chunk_end_def Let_def CHUNK_SIZE_def z_def)
  next
    case (Cons b bs)
    have "\<forall>x \<in> set (b # bs). 0 \<le> x \<and> x \<le> int (length z) - 2"
    proof
      fix x assume "x \<in> set (b # bs)"
      then have "x \<in> set (breakPoints z)" using Cons by simp
      from breakPoints_range [OF this] show "0 \<le> x \<and> x \<le> int (length z) - 2" by simp
    qed
    from fold_max_range [OF this] have "0 \<le> fold max bs b" by simp
    then show ?thesis using Cons by (simp add: chunk_end_def Let_def CHUNK_SIZE_def z_def)
  qed
qed

lemma next_start_lower: "endIndex - 500 \<le> next_start text endIndex"
  by (simp add: next_start_def Let_def CHUNK_OVERLAP_def)

lemma chunk_step_advances: "startIndex + 5301 \<le> next_start text (chunk_end text startIndex)"
  using chunk_end_lower [of startIndex "text"] next_start_lower [of "chunk_end text startIndex" "text"]
  by linarith

function (domintros) chunk_loop :: "jsstring \<Rightarrow> int \<Rightarrow> jsstring list \<Rightarrow> jsstring list" where
  "chunk_loop text startIndex chunks =
     (if startIndex < int (length text) then
        (let endIndex = chunk_end text startIndex;
             chunk = trim (js_slice text startIndex endIndex)
         in chunk_loop text (next_start text endIndex) (push_chunk chunks chunk))
      else chunks)"
  by pat_completeness auto
termination
proof (relation "measure (\<lambda>(t, startIndex, chunks). nat (int (length t) - startIndex))", goal_cases)
  case 1
  show ?case by simp
next
  case (2 t startIndex chunks x xa)
  have "startIndex < next_start t (chunk_end t startIndex)"
    using chunk_step_advances [of startIndex t] by linarith
  with 2 show ?case by simp
qed

declare chunk_loop.simps [simp del]

definition chunkText :: "jsstring \<Rightarrow> jsstring list" where
  "chunkText text =
     (if text = [] \<or> length text = 0 then []
      else if int (length text) \<le> CHUNK_SIZE then [text]
      else chunk_loop text 0 [])"


lemma chunk_loop_total: "chunk_loop_dom (t, s, cs)"
proof (induction "nat (int (length t) - s)" arbitrary: s cs rule: less_induct)
  case less
  show ?case
  proof (rule chunk_loop.domintros)
    assume lt: "s < int (length t)"
    have "s < next_start t (chunk_end t s)"
      using chunk_step_advances [of s t] by linarith
    with lt have "nat (int (length t) - next_start t (chunk_end t s)) < nat (int (length t) - s)"
      by linarith
    from less [OF this]
    show "chunk_loop_dom (t, next_start t (chunk_end t s),
            push_chunk cs (trim (js_slice t s (chunk_end t s))))" .
  qed
qed

subsection \<open>Chunk sizes\<close>

lemma length_trim_le: "length (trim s) \<le> length s"
proof -
  have "length (trim s) \<le> length (dropWhile is_ws s)"
    unfolding trim_def using length_dropWhile_le [of is_ws "rev (dropWhile is_ws s)"] by simp
  also have "\<dots> \<le> length s" by (rule length_dropWhile_le)
  finally show ?thesis .
qed

lemma js_slice_nonneg:
  "0 \<le> a \<Longrightarrow> 0 \<le> b \<Longrightarrow>
   js_slice s a b = take (nat (min b (int (length s)) - a)) (drop (nat a) s)"
  by (auto simp: js_slice_def Let_def min_def)

lemma length_js_slice: "0 \<le> a \<Longrightarrow> 0 \<le> b \<Longrightarrow> length (js_slice s a b) \<le> nat (b - a)"
  by (simp add: js_slice_nonneg)

lemma chunk_end_upper:
  assumes "0 \<le> startIndex"
  shows "chunk_end t startIndex \<le> startIndex + 6199"
proof -
  define z where "z = js_slice t (max (startIndex + CHUNK_SIZE - 200) startIndex)
                 (min (startIndex + CHUNK_SIZE + 200) (int (length t)))"
  have z: "z = js_slice t (startIndex + 5800) (min (startIndex + 6200) (int (length t)))"
    by (simp add: z_def CHUNK_SIZE_def add.commute)
  have "length z \<le> nat (min (startIndex + 6200) (int (length t)) - (startIndex + 5800))"
    unfolding z using assms by (intro length_js_slice) auto
  then have lz: "int (length z) \<le> 400" by linarith
  show ?thesis
  proof (cases "breakPoints z")
    case Nil
    then show ?thesis by (simp add: chunk_end_def Let_def CHUNK_SIZE_def z_def)
  next
    case (Cons b bs)
    have "\<forall>x \<in> set (b # bs). 0 \<le> x \<and> x \<le> int (length z) - 2"
    proof
      fix x assume "x \<in> set (b # bs)"
      then have "x \<in> set (breakPoints z)" using Cons by simp
      from breakPoints_range [OF this] show "0 \<le> x \<and> x \<le> int (length z) - 2" by simp
    qed
    from fold_max_range [OF this] have "fold max bs b \<le> int (length z) - 2" by simp
    with lz have "fold max bs b \<le> 398" by linarith
    then show ?thesis using Cons by (simp add: chunk_end_def Let_def CHUNK_SIZE_def z_def)
  qed
qed

lemma length_chunk:
  assumes "0 \<le> s"
  shows "length (trim (js_slice t s (chunk_end t s))) \<le> 6199"
proof -
  have "length (trim (js_slice t s (chunk_end t s))) \<le> length (js_slice t s (chunk_end t s))"
    by (rule length_trim_le)
  also have "\<dots> \<le> nat (chunk_end t s - s)"
    using assms chunk_end_lower [of s t] by (intro length_js_slice) linarith+
  also have "\<dots> \<le> 6199" using chunk_end_upper [OF assms, of t] by linarith
  finally show ?thesis .
qed

lemma chunk_loop_bound:
  "0 \<le> s \<Longrightarrow> \<forall>c \<in> set acc. length c \<le> 6200 \<Longrightarrow>
   \<forall>c \<in> set (chunk_loop t s acc). length c \<le> 6200"
proof (induction t s acc rule: chunk_loop.induct)
  case (1 t s acc)
  show ?case
  proof (cases "s < int (length t)")
    case False
    then show ?thesis using "1.prems" by (simp add: chunk_loop.simps)
  next
    case True
    let ?e = "chunk_end t s"
    let ?c = "trim (js_slice t s ?e)"
    have nonneg: "0 \<le> next_start t ?e"
      using chunk_step_advances [of s t] "1.prems"(1) by linarith
    have "length ?c \<le> 6200" using length_chunk [OF "1.prems"(1), of t] by linarith
    then have acc': "\<forall>c \<in> set (push_chunk acc ?c). length c \<le> 6200"
      using "1.prems"(2) by (simp add: push_chunk_def)
    have "\<forall>c \<in> set (chunk_loop t (next_start t ?e) (push_chunk acc ?c)). length c \<le> 6200"
      using "1.IH" [OF True refl refl nonneg acc'] .
    then show ?thesis using True by (subst chunk_loop.simps) (simp add: Let_def)
  qed
qed

subsection \<open>Occurrences of a delimiter\<close>

lemma lastIndexOf_absent:
  assumes "c \<in> set pat" "c \<notin> set s"
  shows "lastIndexOf s pat = - 1"
proof -
  have "\<not> occurs_at s pat k" for k
  proof
    assume "occurs_at s pat k"
    then have "set pat \<subseteq> set s"
      unfolding occurs_at_def
      using set_take_subset [of "length pat" "drop k s"] set_drop_subset [of k s] by auto
    with assms show False by auto
  qed
  then have "filter (occurs_at s pat) (rev [0 ..< length s + 1 - length pat]) = []"
    by simp
  then show ?thesis by (simp add: lastIndexOf_def)
qed

lemma lastIndexOf_suffix: "lastIndexOf (xs @ pat) pat = int (length xs)"
proof -
  have "occurs_at (xs @ pat) pat (length xs)" by (simp add: occurs_at_def)
  then show ?thesis by (simp add: lastIndexOf_def)
qed

subsection \<open>What trimming keeps\<close>

lemma takeWhile_le_index:
  assumes "i < length xs" "\<not> P (xs ! i)"
  shows "length (takeWhile P xs) \<le> i"
proof (rule ccontr)
  assume "\<not> length (takeWhile P xs) \<le> i"
  then have lt: "i < length (takeWhile P xs)" by simp
  then have "takeWhile P xs ! i = xs ! i" by (rule takeWhile_nth)
  moreover have "takeWhile P xs ! i \<in> set (takeWhile P xs)" using lt by simp
  ultimately show False using assms(2) set_takeWhileD by metis
qed

lemma trim_take_drop:
  "trim xs = take (length xs - length (takeWhile is_ws xs)
                   - length (takeWhile is_ws (rev (dropWhile is_ws xs))))
               (drop (length (takeWhile is_ws xs)) xs)"
proof -
  define ys where "ys = dropWhile is_ws xs"
  have ys: "ys = drop (length (takeWhile is_ws xs)) xs"
    by (simp add: ys_def dropWhile_eq_drop)
  have "trim xs = rev (drop (length (takeWhile is_ws (rev ys))) (rev ys))"
    by (simp add: trim_def ys_def dropWhile_eq_drop)
  also have "\<dots> = take (length ys - length (takeWhile is_ws (rev ys))) ys"
    by (simp add: rev_drop)
  finally show ?thesis by (simp add: ys ys_def [symmetric])
qed

text \<open>
  Trimming keeps everything from the first to the last character that is not whitespace:
  a stretch \<open>[p, q]\<close> whose two ends are not whitespace survives whole.
\<close>

lemma trim_covers:
  assumes pq: "p \<le> q" and q: "q < length xs"
    and np: "\<not> is_ws (xs ! p)" and nq: "\<not> is_ws (xs ! q)"
  shows "\<exists>a b. a \<le> p \<and> q < b \<and> b \<le> length xs \<and> trim xs = take (b - a) (drop a xs)"
proof -
  define a where "a = length (takeWhile is_ws xs)"
  define ys where "ys = dropWhile is_ws xs"
  define r where "r = length (takeWhile is_ws (rev ys))"
  have p: "p < length xs" using pq q by simp
  have a_le: "a \<le> p" unfolding a_def using p np by (rule takeWhile_le_index)
  have ys: "ys = drop a xs" by (simp add: ys_def a_def dropWhile_eq_drop)
  have len_ys: "length ys = length xs - a" by (simp add: ys)
  have r_le: "r \<le> length xs - 1 - q"
  proof -
    have j: "length ys - 1 - (q - a) < length (rev ys)" using q a_le pq len_ys by simp
    have "rev ys ! (length ys - 1 - (q - a)) = ys ! (q - a)"
      using q a_le pq len_ys by (simp add: rev_nth)
    also have "\<dots> = xs ! q" using a_le pq q by (simp add: ys)
    finally have "\<not> is_ws (rev ys ! (length ys - 1 - (q - a)))" using nq by simp
    from takeWhile_le_index [of "length ys - 1 - (q - a)" "rev ys" is_ws, OF j this]
    show ?thesis using len_ys a_le pq q by (simp add: r_def)
  qed
  have "trim xs = take (length xs - a - r) (drop a xs)"
    using trim_take_drop [of xs] by (simp add: a_def r_def ys_def)
  moreover have "length xs - a - r = (length xs - r) - a" by simp
  moreover have "q < length xs - r" using r_le q by linarith
  ultimately show ?thesis using a_le by (intro exI [of _ a] exI [of _ "length xs - r"]) simp
qed

lemma trim_no_ws_ends:
  assumes "xs \<noteq> []" "\<not> is_ws (hd xs)" "\<not> is_ws (last xs)"
  shows "trim xs = xs"
proof -
  have 1: "dropWhile is_ws xs = xs" using assms(1,2) by (cases xs) simp_all
  have "rev xs \<noteq> []" "\<not> is_ws (hd (rev xs))" using assms(1,3) by (simp_all add: hd_rev)
  then have 2: "dropWhile is_ws (rev xs) = rev xs" by (cases "rev xs") simp_all
  show ?thesis unfolding trim_def 1 2 by simp
qed





lemma trim_leading_ws:
  assumes "\<forall>c \<in> set ws. is_ws c"
  shows "trim (ws @ xs) = trim xs"
proof -
  have "dropWhile is_ws (ws @ xs) = dropWhile is_ws xs"
    using assms by (intro dropWhile_append2) simp
  then show ?thesis by (simp add: trim_def)
qed

lemma trim_all_ws:
  assumes "\<forall>c \<in> set xs. is_ws c"
  shows "trim xs = []"
proof -
  from assms have h: "dropWhile is_ws xs = []" by simp
  show ?thesis unfolding trim_def h by simp
qed

lemma trim_trailing_ws:
  assumes "\<forall>c \<in> set ws. is_ws c"
  shows "trim (xs @ ws) = trim xs"
proof (cases "\<forall>c \<in> set xs. is_ws c")
  case True
  then have "\<forall>c \<in> set (xs @ ws). is_ws c" using assms by auto
  then have "trim (xs @ ws) = []" by (rule trim_all_ws)
  moreover have "trim xs = []" using True by (rule trim_all_ws)
  ultimately show ?thesis by simp
next
  case False
  then obtain x where x: "x \<in> set xs" "\<not> is_ws x" by auto
  then have "dropWhile is_ws (xs @ ws) = dropWhile is_ws xs @ ws"
    by (rule dropWhile_append1)
  moreover have "dropWhile is_ws (rev ws @ rev (dropWhile is_ws xs)) =
                 dropWhile is_ws (rev (dropWhile is_ws xs))"
    using assms by (intro dropWhile_append2) simp
  ultimately show ?thesis by (simp add: trim_def)
qed

subsection \<open>Coverage of the input by the loop\<close>

text \<open>
  The stretch \<open>[p, q]\<close> of the text is covered by a sequence of chunks when one of the
  chunks is the substring \<open>[a, b)\<close> of the text for some \<open>a \<le> p\<close> and \<open>q < b\<close>.
\<close>

definition covered :: "jsstring \<Rightarrow> jsstring list \<Rightarrow> nat \<Rightarrow> nat \<Rightarrow> bool" where
  "covered t chunks p q \<longleftrightarrow>
     (\<exists>a \<in> {.. p}. \<exists>b \<in> {q <.. length t}. take (b - a) (drop a t) \<in> set chunks)"

lemma next_start_overlap:
  "500 < endIndex \<Longrightarrow> endIndex < int (length t) \<Longrightarrow> next_start t endIndex = endIndex - 500"
  by (simp add: next_start_def Let_def CHUNK_OVERLAP_def)

lemma slice_covers:
  assumes s: "0 \<le> s" "s \<le> int p" and pq: "p \<le> q" and e: "int q < e" and q: "q < length t"
    and np: "\<not> is_ws (t ! p)" and nq: "\<not> is_ws (t ! q)"
  shows "\<exists>a b. a \<le> p \<and> q < b \<and> b \<le> length t \<and> a < b \<and>
           trim (js_slice t s e) = take (b - a) (drop a t)"
proof -
  define n where "n = nat (min e (int (length t)) - s)"
  define sl where "sl = js_slice t s e"
  have "0 \<le> e" using s pq e by linarith
  with s(1) have sl: "sl = take n (drop (nat s) t)"
    unfolding sl_def n_def by (rule js_slice_nonneg)
  have len_sl: "length sl = n" using s e pq q by (simp add: sl n_def)
  have n_le: "nat s + n \<le> length t" using s e pq q unfolding n_def by linarith
  have j: "q - nat s < length sl" using s e pq q unfolding len_sl n_def by linarith
  have jp: "p - nat s \<le> q - nat s" using pq by simp
  have "sl ! (q - nat s) = t ! q" using j s pq q len_sl by (simp add: sl)
  then have 1: "\<not> is_ws (sl ! (q - nat s))" using nq by simp
  have "p - nat s < length sl" using j jp by simp
  then have "sl ! (p - nat s) = t ! p" using s pq q len_sl by (simp add: sl)
  then have 2: "\<not> is_ws (sl ! (p - nat s))" using np by simp
  from trim_covers [OF jp j 2 1] obtain a b where
    ab: "a \<le> p - nat s" "q - nat s < b" "b \<le> length sl" "trim sl = take (b - a) (drop a sl)"
    by blast
  have "drop a sl = take (n - a) (drop (nat s + a) t)"
    by (simp add: sl drop_take add.commute)
  then have "trim sl = take (b - a) (drop (nat s + a) t)"
    using ab len_sl by (simp add: min_def)
  then have "trim (js_slice t s e) = take ((nat s + b) - (nat s + a)) (drop (nat s + a) t)"
    by (simp add: sl_def)
  moreover have "nat s + a \<le> p" using ab s by linarith
  moreover have "q < nat s + b" using ab s pq by linarith
  moreover have "nat s + b \<le> length t" using ab len_sl n_le by linarith
  moreover have "nat s + a < nat s + b" using ab jp by linarith
  ultimately show ?thesis by blast
qed

lemma chunk_loop_mono: "set acc \<subseteq> set (chunk_loop t s acc)"
proof (induction t s acc rule: chunk_loop.induct)
  case (1 t s acc)
  show ?case
  proof (cases "s < int (length t)")
    case False
    then show ?thesis by (simp add: chunk_loop.simps)
  next
    case True
    have "set acc \<subseteq> set (push_chunk acc (trim (js_slice t s (chunk_end t s))))"
      by (auto simp: push_chunk_def)
    also have "\<dots> \<subseteq> set (chunk_loop t (next_start t (chunk_end t s))
                          (push_chunk acc (trim (js_slice t s (chunk_end t s)))))"
      using "1.IH" [OF True refl refl] .
    finally show ?thesis using True by (subst chunk_loop.simps) (simp add: Let_def)
  qed
qed

lemma chunk_loop_covers:
  "0 \<le> s \<Longrightarrow> s \<le> int p \<Longrightarrow> p \<le> q \<Longrightarrow> q < length t \<Longrightarrow> int q - int p \<le> 500 \<Longrightarrow>
   \<not> is_ws (t ! p) \<Longrightarrow> \<not> is_ws (t ! q) \<Longrightarrow> covered t (chunk_loop t s acc) p q"
proof (induction t s acc rule: chunk_loop.induct)
  case (1 t s acc)
  let ?e = "chunk_end t s"
  let ?c = "trim (js_slice t s ?e)"
  let ?s' = "next_start t ?e"
  have lt: "s < int (length t)" using "1.prems" by linarith
  have unfold: "chunk_loop t s acc = chunk_loop t ?s' (push_chunk acc ?c)"
    using lt by (subst chunk_loop.simps) (simp add: Let_def)
  have nonneg: "0 \<le> ?s'" using chunk_step_advances [of s t] "1.prems"(1) by linarith
  show ?case
  proof (cases "int q < ?e")
    case True
    from slice_covers [OF "1.prems"(1,2,3) True "1.prems"(4,6,7)] obtain a b where
      ab: "a \<le> p" "q < b" "b \<le> length t" "a < b" "?c = take (b - a) (drop a t)"
      by blast
    have "length ?c = b - a" using ab by simp
    then have "?c \<in> set (push_chunk acc ?c)" using ab(4) by (simp add: push_chunk_def)
    then have "?c \<in> set (chunk_loop t s acc)"
      using chunk_loop_mono [of "push_chunk acc ?c" t ?s'] unfold by auto
    then have "take (b - a) (drop a t) \<in> set (chunk_loop t s acc)" using ab(5) by simp
    moreover have "a \<in> {.. p}" "b \<in> {q <.. length t}" using ab by simp_all
    ultimately show ?thesis unfolding covered_def by blast
  next
    case False
    then have e_lt: "?e < int (length t)" using "1.prems"(4) by linarith
    have "500 < ?e" using chunk_end_lower [of s t] "1.prems"(1) by linarith
    then have s': "?s' = ?e - 500" using e_lt by (rule next_start_overlap)
    have "?s' \<le> int p" using s' False "1.prems"(5) by linarith
    from "1.IH" [OF lt refl refl nonneg this "1.prems"(3,4,5,6,7)] show ?thesis
      by (simp add: unfold)
  qed
qed

subsection \<open>Runs of the loop\<close>

lemma chunkText_plain_example:
  "chunkText (replicate 7000 0x61) = [replicate 6000 0x61, replicate 1500 0x61]"
proof -
  let ?t = "replicate 7000 (0x61 :: jschar)"
  have zone: "js_slice ?t 5800 6200 = replicate 400 0x61"
    by (simp add: js_slice_nonneg)
  have bp: "breakPoints (replicate 400 (0x61 :: jschar)) = []"
    by (simp add: breakPoints_def lastIndexOf_absent [of DOT] lastIndexOf_absent [of NL])
  have e1: "chunk_end ?t 0 = 6000"
    by (simp add: chunk_end_def CHUNK_SIZE_def zone bp)
  have e2: "chunk_end ?t 5500 = 11500"
    by (simp add: chunk_end_def CHUNK_SIZE_def)
  have c1: "trim (js_slice ?t 0 6000) = replicate 6000 0x61"
    by (simp add: js_slice_nonneg trim_def is_ws_def dropWhile_replicate)
  have c2: "trim (js_slice ?t 5500 11500) = replicate 1500 0x61"
    by (simp add: js_slice_nonneg trim_def is_ws_def dropWhile_replicate)
  have n1: "next_start ?t 6000 = 5500" by (simp add: next_start_def CHUNK_OVERLAP_def)
  have n2: "next_start ?t 11500 = 11500" by (simp add: next_start_def CHUNK_OVERLAP_def)
  have "chunk_loop ?t 0 [] = chunk_loop ?t 5500 [replicate 6000 0x61]"
    by (subst chunk_loop.simps) (simp add: e1 c1 n1 push_chunk_def)
  also have "\<dots> = chunk_loop ?t 11500 [replicate 6000 0x61, replicate 1500 0x61]"
    by (subst chunk_loop.simps) (simp add: e2 c2 n2 push_chunk_def)
  also have "\<dots> = [replicate 6000 0x61, replicate 1500 0x61]"
    by (subst chunk_loop.simps) simp
  finally show ?thesis by (simp add: chunkText_def CHUNK_SIZE_def)
qed

text \<open>
  A delimiter at the far end of the search zone: the text is 6198 letters, a period, a
  space and 800 letters. The first chunk ends just after the period and has
  6199 characters, more than \<open>CHUNK_SIZE\<close>.
\<close>

lemma chunkText_late_delimiter_example:
  "chunkText (replicate 6198 0x61 @ [DOT, SP] @ replicate 800 0x61) =
     [replicate 6198 0x61 @ [DOT], replicate 499 0x61 @ [DOT, SP] @ replicate 800 0x61]"
proof -
  let ?t = "replicate 6198 (0x61 :: jschar) @ [DOT, SP] @ replicate 800 0x61"
  have len: "length ?t = 7000" by simp
  have zone: "js_slice ?t 5800 6200 = replicate 398 0x61 @ [DOT, SP]"
    by (simp add: js_slice_nonneg)
  have l1: "lastIndexOf (replicate 398 0x61 @ [DOT, SP]) [DOT, SP] = 398"
    using lastIndexOf_suffix [of "replicate 398 0x61" "[DOT, SP]"] by simp
  have l2: "lastIndexOf (replicate 398 0x61 @ [DOT, SP]) [DOT, NL] = - 1"
    by (rule lastIndexOf_absent [of NL]) simp_all
  have l3: "lastIndexOf (replicate 398 0x61 @ [DOT, SP]) [NL, NL] = - 1"
    by (rule lastIndexOf_absent [of NL]) simp_all
  have bp: "breakPoints (replicate 398 0x61 @ [DOT, SP]) = [398]"
    by (simp add: breakPoints_def l1 l2 l3)
  have e1: "chunk_end ?t 0 = 6199"
    by (simp add: chunk_end_def CHUNK_SIZE_def zone bp del: append.simps replicate_append_same)
  have e2: "chunk_end ?t 5699 = 11699"
    by (simp add: chunk_end_def CHUNK_SIZE_def)
  have s1: "js_slice ?t 0 6199 = replicate 6198 0x61 @ [DOT]"
    by (simp add: js_slice_nonneg)
  have s2: "js_slice ?t 5699 11699 = replicate 499 0x61 @ [DOT, SP] @ replicate 800 0x61"
    by (simp add: js_slice_nonneg)
  have c1: "trim (replicate 6198 0x61 @ [DOT]) = replicate 6198 0x61 @ [DOT]"
    by (rule trim_no_ws_ends) (simp_all add: is_ws_def hd_append)
  have c2: "trim (replicate 499 0x61 @ [DOT, SP] @ replicate 800 0x61) =
              replicate 499 0x61 @ [DOT, SP] @ replicate 800 0x61"
    by (rule trim_no_ws_ends) (simp_all add: is_ws_def hd_append)
  have n1: "next_start ?t 6199 = 5699" by (simp add: next_start_def CHUNK_OVERLAP_def)
  have n2: "next_start ?t 11699 = 11699" by (simp add: next_start_def CHUNK_OVERLAP_def)
  have "chunk_loop ?t 0 [] = chunk_loop ?t 5699 [replicate 6198 0x61 @ [DOT]]"
    by (subst chunk_loop.simps) (simp only: len e1 s1 c1 n1 push_chunk_def Let_def, simp)
  also have "\<dots> = chunk_loop ?t 11699
      [replicate 6198 0x61 @ [DOT], replicate 499 0x61 @ [DOT, SP] @ replicate 800 0x61]"
    by (subst chunk_loop.simps) (simp only: len e2 s2 c2 n2 push_chunk_def Let_def, simp)
  also have "\<dots> = [replicate 6198 0x61 @ [DOT], replicate 499 0x61 @ [DOT, SP] @ replicate 800 0x61]"
    by (subst chunk_loop.simps) (simp only: len, simp)
  finally have "chunk_loop ?t 0 [] =
      [replicate 6198 0x61 @ [DOT], replicate 499 0x61 @ [DOT, SP] @ replicate 800 0x61]" .
  moreover have "chunkText ?t = chunk_loop ?t 0 []"
    unfolding chunkText_def by (simp only: len) (simp add: CHUNK_SIZE_def)
  ultimately show ?thesis by simp
qed

text \<open>
  Two stretches of letters joined by \<open>b\<close>, eight spaces and \<open>c\<close> across the first cut:
  the first chunk loses the spaces at its end, the second chunk holds \<open>b\<close>, the spaces
  and \<open>c\<close>.
\<close>

lemma chunkText_spaced_example:
  "chunkText (replicate 5995 0x61 @ 0x62 # replicate 8 SP @ 0x63 # replicate 995 0x61) =
     [replicate 5995 0x61 @ [0x62],
      replicate 495 0x61 @ 0x62 # replicate 8 SP @ 0x63 # replicate 995 0x61]"
proof -
  let ?t = "replicate 5995 (0x61 :: jschar) @ 0x62 # replicate 8 SP @ 0x63 # replicate 995 0x61"
  have len: "length ?t = 7000" by simp
  have zone: "js_slice ?t 5800 6200 =
                replicate 195 0x61 @ 0x62 # replicate 8 SP @ 0x63 # replicate 195 0x61"
    by (simp add: js_slice_nonneg)
  have bp: "breakPoints (replicate 195 0x61 @ 0x62 # replicate 8 SP @ 0x63 # replicate 195 0x61) = []"
    by (simp add: breakPoints_def lastIndexOf_absent [of DOT] lastIndexOf_absent [of NL])
  have e1: "chunk_end ?t 0 = 6000"
    by (simp add: chunk_end_def CHUNK_SIZE_def zone bp)
  have e2: "chunk_end ?t 5500 = 11500"
    by (simp add: chunk_end_def CHUNK_SIZE_def)
  have s1: "js_slice ?t 0 6000 = (replicate 5995 0x61 @ [0x62]) @ replicate 4 SP"
    by (simp add: js_slice_nonneg)
  have s2: "js_slice ?t 5500 11500 =
              replicate 495 0x61 @ 0x62 # replicate 8 SP @ 0x63 # replicate 995 0x61"
    by (simp add: js_slice_nonneg)
  have c1: "trim ((replicate 5995 0x61 @ [0x62]) @ replicate 4 SP) = replicate 5995 0x61 @ [0x62]"
  proof -
    have "trim ((replicate 5995 0x61 @ [0x62]) @ replicate 4 SP) = trim (replicate 5995 0x61 @ [0x62])"
      by (rule trim_trailing_ws) (simp add: is_ws_def)
    also have "\<dots> = replicate 5995 0x61 @ [0x62]"
      by (rule trim_no_ws_ends) (simp_all add: is_ws_def hd_append)
    finally show ?thesis .
  qed
  have c2: "trim (replicate 495 0x61 @ 0x62 # replicate 8 SP @ 0x63 # replicate 995 0x61) =
              replicate 495 0x61 @ 0x62 # replicate 8 SP @ 0x63 # replicate 995 0x61"
    by (rule trim_no_ws_ends) (simp_all add: is_ws_def hd_append)
  have n1: "next_start ?t 6000 = 5500"
    by (simp add: next_start_def CHUNK_OVERLAP_def)
  have n2: "next_start ?t 11500 = 11500"
    by (simp add: next_start_def CHUNK_OVERLAP_def)
  have "chunk_loop ?t 0 [] = chunk_loop ?t 5500 [replicate 5995 0x61 @ [0x62]]"
    by (subst chunk_loop.simps) (simp only: len e1 s1 c1 n1 push_chunk_def Let_def, simp)
  also have "\<dots> = chunk_loop ?t 11500
      [replicate 5995 0x61 @ [0x62],
       replicate 495 0x61 @ 0x62 # replicate 8 SP @ 0x63 # replicate 995 0x61]"
    by (subst chunk_loop.simps) (simp only: len e2 s2 c2 n2 push_chunk_def Let_def, simp)
  also have "\<dots> = [replicate 5995 0x61 @ [0x62],
       replicate 495 0x61 @ 0x62 # replicate 8 SP @ 0x63 # replicate 995 0x61]"
    by (subst chunk_loop.simps) (simp only: len, simp)
  finally have "chunk_loop ?t 0 [] = [replicate 5995 0x61 @ [0x62],
       replicate 495 0x61 @ 0x62 # replicate 8 SP @ 0x63 # replicate 995 0x61]" .
  moreover have "chunkText ?t = chunk_loop ?t 0 []"
    unfolding chunkText_def by (simp only: len) (simp add: CHUNK_SIZE_def)
  ultimately show ?thesis by simp
qed

subsection \<open>Texts that \<open>cleanText\<close> leaves alone\<close>

lemma collapse_blanks_id: "\<forall>c \<in> set xs. \<not> is_blank c \<Longrightarrow> collapse_blanks xs = xs"
  by (induction xs) simp_all

lemma collapse_newlines_id: "NL \<notin> set xs \<Longrightarrow> collapse_newlines xs = xs"
  by (induction xs) auto

lemma split_nl_single: "NL \<notin> set xs \<Longrightarrow> split_nl xs = [xs]"
  by (induction xs) auto

lemma cleanText_id:
  assumes plain: "\<forall>c \<in> set xs. \<not> is_ctrl c \<and> \<not> is_blank c \<and> c \<noteq> NL"
    and ends: "xs \<noteq> []" "\<not> is_ws (hd xs)" "\<not> is_ws (last xs)"
  shows "cleanText xs = xs"
proof -
  have 1: "strip_ctrl xs = xs" using plain by (simp add: strip_ctrl_def)
  have 2: "collapse_blanks xs = xs" using plain by (intro collapse_blanks_id) simp
  have nl: "NL \<notin> set xs" using plain by auto
  have 3: "collapse_newlines xs = xs" using nl by (rule collapse_newlines_id)
  have 4: "split_nl xs = [xs]" using nl by (rule split_nl_single)
  have 5: "trim xs = xs" using ends by (rule trim_no_ws_ends)
  show ?thesis using ends(1) by (simp add: cleanText_def 1 2 3 4 5)
qed

text \<open>
  The letter \<open>a\<close>, 7000 no-break spaces (U+00A0) and the letter \<open>b\<close>. A no-break space
  is neither a control character nor matched by \<^verbatim>\<open>[ \t]\<close>, so \<open>cleanText\<close> returns this
  text as it is; \<^verbatim>\<open>trim\<close> does remove no-break spaces, so the two chunks are \<open>a\<close> and
  \<open>b\<close>.
\<close>

lemma cleanText_nbsp_example:
  "cleanText (0x61 # replicate 7000 0xA0 @ [0x62]) = 0x61 # replicate 7000 0xA0 @ [0x62]"
  by (rule cleanText_id) (auto simp: is_ctrl_def is_blank_def is_ws_def)

lemma chunkText_nbsp_example:
  "chunkText (0x61 # replicate 7000 0xA0 @ [0x62]) = [[0x61], [0x62]]"
proof -
  let ?t = "(0x61 :: jschar) # replicate 7000 0xA0 @ [0x62]"
  have len: "length ?t = 7002" by simp
  have zone: "js_slice ?t 5800 6200 = replicate 400 0xA0"
    by (simp add: js_slice_nonneg)
  have bp: "breakPoints (replicate 400 (0xA0 :: jschar)) = []"
    by (simp add: breakPoints_def lastIndexOf_absent [of DOT] lastIndexOf_absent [of NL])
  have e1: "chunk_end ?t 0 = 6000"
    by (simp add: chunk_end_def CHUNK_SIZE_def zone bp)
  have e2: "chunk_end ?t 5500 = 11500"
    by (simp add: chunk_end_def CHUNK_SIZE_def)
  have s1: "js_slice ?t 0 6000 = [0x61] @ replicate 5999 0xA0"
    by (simp add: js_slice_nonneg)
  have s2: "js_slice ?t 5500 11500 = replicate 1501 0xA0 @ [0x62]"
    by (simp add: js_slice_nonneg)
  have single: "trim [c] = [c]" if "\<not> is_ws c" for c
    using that by (simp add: trim_def)
  have c1: "trim ([0x61] @ replicate 5999 0xA0) = [0x61]"
  proof -
    have "trim ([0x61] @ replicate 5999 0xA0) = trim [0x61]"
      by (rule trim_trailing_ws) (simp add: is_ws_def)
    then show ?thesis by (simp add: single is_ws_def)
  qed
  have c2: "trim (replicate 1501 0xA0 @ [0x62]) = [0x62]"
  proof -
    have "trim (replicate 1501 0xA0 @ [0x62]) = trim [0x62]"
      by (rule trim_leading_ws) (simp add: is_ws_def)
    then show ?thesis by (simp add: single is_ws_def)
  qed
  have n1: "next_start ?t 6000 = 5500"
    by (simp add: next_start_def CHUNK_OVERLAP_def)
  have n2: "next_start ?t 11500 = 11500"
    by (simp add: next_start_def CHUNK_OVERLAP_def)
  have "chunk_loop ?t 0 [] = chunk_loop ?t 5500 [[0x61]]"
    by (subst chunk_loop.simps) (simp only: len e1 s1 c1 n1 push_chunk_def Let_def, simp)
  also have "\<dots> = chunk_loop ?t 11500 [[0x61], [0x62]]"
    by (subst chunk_loop.simps) (simp only: len e2 s2 c2 n2 push_chunk_def Let_def, simp)
  also have "\<dots> = [[0x61], [0x62]]"
    by (subst chunk_loop.simps) (simp only: len, simp)
  finally have "chunk_loop ?t 0 [] = [[0x61], [0x62]]" .
  moreover have "chunkText ?t = chunk_loop ?t 0 []"
    unfolding chunkText_def by (simp only: len) (simp add: CHUNK_SIZE_def)
  ultimately show ?thesis by simp
qed

section \<open>The extraction orchestrator\<close>

text \<open>
  The PDF parser (\<^verbatim>\<open>pdf-parse\<close>) is an external collaborator. It is a parameter of the
  model: a function from the state of the outside world and the buffer to either a thrown
  error or the parsed data, and the next state of the world. Two calls on one buffer may
  therefore answer differently unless the parser is assumed deterministic. The fields of the
  parsed data may be missing (\<^verbatim>\<open>undefined\<close>), which is what \<^verbatim>\<open>data.text || ""\<close> and
  \<^verbatim>\<open>data.numpages || 1\<close> guard against; \<^verbatim>\<open>||\<close> also replaces the falsy values \<^verbatim>\<open>""\<close> and
  \<^verbatim>\<open>0\<close>.
\<close>

type_synonym buffer = "8 word list"

record pdf_data =
  pdf_text :: "jsstring option"
  numpages :: "int option"

type_synonym ('e, 'w) parser = "'w \<Rightarrow> buffer \<Rightarrow> ('e + pdf_data) \<times> 'w"

record PdfExtractionResult =
  fullText :: jsstring
  chunks :: "jsstring list"
  pagesProcessed :: int
  ocrUsed :: bool

definition text_or_empty :: "jsstring option \<Rightarrow> jsstring" where
  "text_or_empty t = (case t of None \<Rightarrow> [] | Some s \<Rightarrow> (if s = [] then [] else s))"

definition numpages_or_1 :: "int option \<Rightarrow> int" where
  "numpages_or_1 n = (case n of None \<Rightarrow> 1 | Some k \<Rightarrow> (if k = 0 then 1 else k))"

text \<open>
  \<^verbatim>\<open>
  async function runOcrOnPdf(pdfBuffer: Buffer, highPrecision: boolean): Promise<string> {
    try {
      const data = await pdf(pdfBuffer);
      let text = data.text || "";
      if (!isTextQualityGood(text)) { console.log(...); console.log(...); }
      return text;
    } catch (error) {
      console.error("[OCR] Erreur:", error);
      return "";
    }
  }
  \<close>
\<close>

definition runOcrOnPdf :: "('e, 'w) parser \<Rightarrow> buffer \<Rightarrow> bool \<Rightarrow> 'w \<Rightarrow> jsstring \<times> 'w" where
  "runOcrOnPdf pdf pdfBuffer highPrecision w =
     (case pdf w pdfBuffer of
        (Inl error, w') \<Rightarrow> ([], w')
      | (Inr data, w') \<Rightarrow> (text_or_empty (pdf_text data), w'))"

text \<open>
  \<^verbatim>\<open>
  export async function extractPdfText(pdfBuffer, highPrecision = false) {
    let ocrUsed = false;
    try {
      const data = await pdf(pdfBuffer);
      let text = data.text || "";
      const numPages = data.numpages || 1;
      if (!isTextQualityGood(text)) {
        const ocrText = await runOcrOnPdf(pdfBuffer, highPrecision);
        if (ocrText.length > text.length) { text = ocrText; ocrUsed = true; }
      }
      const cleanedText = cleanText(text);
      const chunks = chunkText(cleanedText);
      return { fullText: cleanedText, chunks, pagesProcessed: numPages, ocrUsed };
    } catch (error: any) {
      return { fullText: "", chunks: [], pagesProcessed: 0, ocrUsed: false };
    }
  }
  \<close>
  The result of the model is the settled promise: \<open>Inl\<close> a rejection, \<open>Inr\<close> the value it
  is fulfilled with.
\<close>

definition extractPdfText ::
  "('e, 'w) parser \<Rightarrow> buffer \<Rightarrow> bool \<Rightarrow> 'w \<Rightarrow> ('e + PdfExtractionResult) \<times> 'w" where
  "extractPdfText pdf pdfBuffer highPrecision w =
     (case pdf w pdfBuffer of
        (Inl error, w1) \<Rightarrow>
          (Inr \<lparr>fullText = [], chunks = [], pagesProcessed = 0, ocrUsed = False\<rparr>, w1)
      | (Inr data, w1) \<Rightarrow>
          (let text0 = text_or_empty (pdf_text data);
               numPages = numpages_or_1 (numpages data);
               (text1, ocrUsed1, w2) =
                 (if \<not> isTextQualityGood text0 then
                    (let (ocrText, w2) = runOcrOnPdf pdf pdfBuffer highPrecision w1
                     in if length ocrText > length text0 then (ocrText, True, w2)
                        else (text0, False, w2))
                  else (text0, False, w1));
               cleanedText = cleanText text1
           in (Inr \<lparr>fullText = cleanedText, chunks = chunkText cleanedText,
                     pagesProcessed = numPages, ocrUsed = ocrUsed1\<rparr>, w2)))"

text \<open>
  \<^verbatim>\<open>
  export async function extractPdfWithOcr(pdfBuffer, highPrecision = false) {
    try {
      const text = await runOcrOnPdf(pdfBuffer, highPrecision);
      const cleanedText = cleanText(text);
      const chunks = chunkText(cleanedText);
      const data = await pdf(pdfBuffer);
      const numPages = data.numpages || 1;
      return { fullText: cleanedText, chunks, pagesProcessed: numPages, ocrUsed: true };
    } catch (error: any) {
      return { fullText: "", chunks: [], pagesProcessed: 0, ocrUsed: true };
    }
  }
  \<close>
\<close>

definition extractPdfWithOcr ::
  "('e, 'w) parser \<Rightarrow> buffer \<Rightarrow> bool \<Rightarrow> 'w \<Rightarrow> ('e + PdfExtractionResult) \<times> 'w" where
  "extractPdfWithOcr pdf pdfBuffer highPrecision w =
     (let (text0, w1) = runOcrOnPdf pdf pdfBuffer highPrecision w;
          cleanedText = cleanText text0
      in case pdf w1 pdfBuffer of
           (Inl error, w2) \<Rightarrow>
             (Inr \<lparr>fullText = [], chunks = [], pagesProcessed = 0, ocrUsed = True\<rparr>, w2)
         | (Inr data, w2) \<Rightarrow>
             (Inr \<lparr>fullText = cleanedText, chunks = chunkText cleanedText,
                   pagesProcessed = numpages_or_1 (numpages data), ocrUsed = True\<rparr>, w2))"

section \<open>Example collaborators\<close>

text \<open>
  Parsers used to evaluate the orchestrator on concrete inputs. The state of the world
  is \<open>unit\<close> for a parser that always answers the same, and the number of calls made so
  far for one whose answer changes between calls.
\<close>

definition failing_parser :: "(string, unit) parser" where
  "failing_parser w b = (Inl ''Invalid PDF structure'', w)"

definition constant_parser :: "(string, unit) parser" where
  "constant_parser w b = (Inr \<lparr>pdf_text = Some (js ''12''), numpages = Some 1\<rparr>, w)"

definition varying_parser :: "(string, nat) parser" where
  "varying_parser n b =
     (if n = 0 then Inr \<lparr>pdf_text = Some (js ''12''), numpages = Some 3\<rparr>
      else Inr \<lparr>pdf_text = Some (js ''12345''), numpages = Some 3\<rparr>, n + 1)"

definition flaky_parser :: "(string, nat) parser" where
  "flaky_parser n b =
     (if n = 0 then Inr \<lparr>pdf_text = Some (js ''abc''), numpages = Some 2\<rparr>
      else Inl ''Invalid PDF structure'', n + 1)"

definition no_page_count_parser :: "(string, unit) parser" where
  "no_page_count_parser w b = (Inr \<lparr>pdf_text = Some (js ''abc''), numpages = None\<rparr>, w)"

definition twelve_page_parser :: "(string, unit) parser" where
  "twelve_page_parser w b = (Inr \<lparr>pdf_text = Some (js ''abc''), numpages = Some 12\<rparr>, w)"

section \<open>Properties of the orchestrator\<close>

lemmas eval_defs =
  js_def trim_def is_ws_def cleanText_def strip_ctrl_def is_ctrl_def is_blank_def
  chunkText_def CHUNK_SIZE_def isTextQualityGood_def MIN_TEXT_LENGTH_def
  text_or_empty_def numpages_or_1_def runOcrOnPdf_def

text \<open>
  Claim C1. On the standard path, when the parser has answered with a native text that the
  classifier calls bad and the OCR fallback returns \<open>ocrText\<close>, the result is built from
  the OCR text with \<open>ocrUsed = True\<close> exactly when the OCR text is strictly longer than the
  native text; otherwise it is built from the native text with \<open>ocrUsed = False\<close>. The
  parser is arbitrary, so every pair of native and OCR texts occurs.
\<close>

theorem extractPdfText_ocr_adopted_iff_longer:
  assumes parsed: "pdf w pdfBuffer = (Inr data, w1)"
    and native: "native = text_or_empty (pdf_text data)"
    and bad: "\<not> isTextQualityGood native"
    and ocr: "runOcrOnPdf pdf pdfBuffer highPrecision w1 = (ocrText, w2)"
  shows "fst (extractPdfText pdf pdfBuffer highPrecision w) =
           Inr \<lparr>fullText = cleanText (if length ocrText > length native then ocrText else native),
                chunks = chunkText (cleanText (if length ocrText > length native then ocrText else native)),
                pagesProcessed = numpages_or_1 (numpages data),
                ocrUsed = (length ocrText > length native)\<rparr>"
  using assms by (simp add: extractPdfText_def Let_def)

theorem extractPdfText_ocr_adopted_iff_longer_witness:
  "fst (extractPdfText varying_parser [] False 0) =
     Inr \<lparr>fullText = js ''12345'', chunks = [js ''12345''], pagesProcessed = 3, ocrUsed = True\<rparr>
   \<and> \<not> isTextQualityGood (js ''12'')"
proof -
  have parsed: "varying_parser 0 [] = (Inr \<lparr>pdf_text = Some (js ''12''), numpages = Some 3\<rparr>, 1)"
    by (simp add: varying_parser_def)
  have native: "js ''12'' = text_or_empty (pdf_text \<lparr>pdf_text = Some (js ''12''), numpages = Some 3\<rparr>)"
    by (simp add: text_or_empty_def js_def)
  have bad: "\<not> isTextQualityGood (js ''12'')"
    by (simp add: isTextQualityGood_def MIN_TEXT_LENGTH_def js_def trim_def is_ws_def)
  have ocr: "runOcrOnPdf varying_parser [] False 1 = (js ''12345'', 2)"
    by (simp add: runOcrOnPdf_def varying_parser_def text_or_empty_def js_def)
  have clean: "cleanText (js ''12345'') = js ''12345''"
    by (simp add: eval_defs)
  have chunk: "chunkText (js ''12345'') = [js ''12345'']"
    by (simp add: eval_defs)
  have len: "length (js ''12345'') > length (js ''12'')" by (simp add: js_def)
  from extractPdfText_ocr_adopted_iff_longer
         [where pdf = varying_parser and highPrecision = False, OF parsed native bad ocr] bad
  show ?thesis by (simp add: len clean chunk numpages_or_1_def)
qed

text \<open>
  Claim C2. If the parser answers the same on every call for the buffer (whatever the state
  of the world), \<open>extractPdfText\<close> is fulfilled with a result whose \<open>ocrUsed\<close> is
  \<open>False\<close>: \<open>runOcrOnPdf\<close> re-invokes the parser and returns the native text again.
\<close>

theorem extractPdfText_deterministic_never_ocr:
  assumes det: "\<forall>w w'. fst (pdf w pdfBuffer) = fst (pdf w' pdfBuffer)"
  shows "\<exists>r. fst (extractPdfText pdf pdfBuffer highPrecision w) = Inr r \<and> \<not> ocrUsed r"
proof (cases "pdf w pdfBuffer")
  case (Pair res w1)
  show ?thesis
  proof (cases res)
    case (Inl e)
    with Pair show ?thesis by (simp add: extractPdfText_def)
  next
    case (Inr data)
    obtain res' w2 where second: "pdf w1 pdfBuffer = (res', w2)" by (cases "pdf w1 pdfBuffer")
    have "res' = res" using det [rule_format, of w1 w] Pair second by simp
    then have "runOcrOnPdf pdf pdfBuffer highPrecision w1 = (text_or_empty (pdf_text data), w2)"
      using second Inr by (simp add: runOcrOnPdf_def)
    then show ?thesis using Pair Inr by (simp add: extractPdfText_def Let_def)
  qed
qed

theorem extractPdfText_deterministic_never_ocr_witness:
  "fst (extractPdfText constant_parser [] False ()) =
     Inr \<lparr>fullText = js ''12'', chunks = [js ''12''], pagesProcessed = 1, ocrUsed = False\<rparr>"
proof -
  have det: "\<forall>w w'. fst (constant_parser w []) = fst (constant_parser w' [])"
    by (simp add: constant_parser_def)
  from extractPdfText_deterministic_never_ocr
         [where pdf = constant_parser and pdfBuffer = "[]" and highPrecision = False and w = "()", OF det]
  obtain r where r: "fst (extractPdfText constant_parser [] False ()) = Inr r" "\<not> ocrUsed r"
    by blast
  have "fst (extractPdfText constant_parser [] False ()) =
     Inr \<lparr>fullText = js ''12'', chunks = [js ''12''], pagesProcessed = 1, ocrUsed = ocrUsed r\<rparr>"
    using r(1) by (auto simp add: extractPdfText_def constant_parser_def Let_def eval_defs split: if_splits)
  with r(2) show ?thesis by simp
qed

text \<open>
  Claim C7. When the first call of the parser throws, \<open>extractPdfText\<close> is fulfilled
  (\<open>Inr\<close>, never rejected) with the all-empty result.
\<close>

theorem extractPdfText_parse_failure:
  assumes "fst (pdf w pdfBuffer) = Inl e"
  shows "fst (extractPdfText pdf pdfBuffer highPrecision w) =
           Inr \<lparr>fullText = [], chunks = [], pagesProcessed = 0, ocrUsed = False\<rparr>"
  using assms by (cases "pdf w pdfBuffer") (simp add: extractPdfText_def)

theorem extractPdfText_parse_failure_witness:
  "fst (failing_parser () [0x25, 0x50]) = Inl ''Invalid PDF structure'' \<and>
   fst (extractPdfText failing_parser [0x25, 0x50] True ()) =
     Inr \<lparr>fullText = [], chunks = [], pagesProcessed = 0, ocrUsed = False\<rparr>"
proof -
  have h: "fst (failing_parser () [0x25, 0x50]) = Inl ''Invalid PDF structure''"
    by (simp add: failing_parser_def)
  from extractPdfText_parse_failure
         [where pdf = failing_parser and pdfBuffer = "[0x25, 0x50]" and w = "()"
            and highPrecision = True, OF h] h
  show ?thesis by simp
qed

text \<open>
  Claim C8, as stated: if the page-count query of the forced-OCR path fails, the result
  still holds the OCR-derived text and \<open>pagesProcessed = 1\<close>. It fails: a parser that
  always throws gives \<open>pagesProcessed = 0\<close>, and a parser that answers the first call with
  the text \<^verbatim>\<open>abc\<close> and throws on the second gives the empty text, not \<^verbatim>\<open>abc\<close>.
\<close>

theorem extractPdfWithOcr_page_count_failure_counterexample:
  "fst (extractPdfWithOcr failing_parser [] False ()) =
     Inr \<lparr>fullText = [], chunks = [], pagesProcessed = 0, ocrUsed = True\<rparr> \<and>
   runOcrOnPdf flaky_parser [] False 0 = (js ''abc'', 1) \<and>
   cleanText (js ''abc'') = js ''abc'' \<and>
   fst (flaky_parser 1 []) = Inl ''Invalid PDF structure'' \<and>
   fst (extractPdfWithOcr flaky_parser [] False 0) =
     Inr \<lparr>fullText = [], chunks = [], pagesProcessed = 0, ocrUsed = True\<rparr>"
  by (simp add: extractPdfWithOcr_def failing_parser_def flaky_parser_def eval_defs)

text \<open>
  Claim C8, amended. With \<open>ocrText\<close> the text returned by \<open>runOcrOnPdf\<close>: if the
  page-count query throws, the catch block fulfils the promise with the all-empty result,
  \<open>pagesProcessed = 0\<close> and \<open>ocrUsed = True\<close>; if it answers, the result holds the
  normalized and chunked OCR text, and \<open>pagesProcessed\<close> is the page count the parser
  reports, or 1 when that count is missing or zero.
\<close>

theorem extractPdfWithOcr_page_count:
  assumes ocr: "runOcrOnPdf pdf pdfBuffer highPrecision w = (ocrText, w1)"
  shows "(fst (pdf w1 pdfBuffer) = Inl e \<longrightarrow>
            fst (extractPdfWithOcr pdf pdfBuffer highPrecision w) =
              Inr \<lparr>fullText = [], chunks = [], pagesProcessed = 0, ocrUsed = True\<rparr>) \<and>
         (fst (pdf w1 pdfBuffer) = Inr data \<longrightarrow>
            fst (extractPdfWithOcr pdf pdfBuffer highPrecision w) =
              Inr \<lparr>fullText = cleanText ocrText, chunks = chunkText (cleanText ocrText),
                   pagesProcessed =
                     (case numpages data of None \<Rightarrow> 1 | Some k \<Rightarrow> if k = 0 then 1 else k),
                   ocrUsed = True\<rparr>)"
proof (cases "pdf w1 pdfBuffer")
  case (Pair res w2)
  then show ?thesis using ocr
    by (cases res) (auto simp: extractPdfWithOcr_def numpages_or_1_def Let_def)
qed

theorem extractPdfWithOcr_page_count_witness:
  "fst (extractPdfWithOcr no_page_count_parser [] False ()) =
     Inr \<lparr>fullText = js ''abc'', chunks = [js ''abc''], pagesProcessed = 1, ocrUsed = True\<rparr> \<and>
   fst (extractPdfWithOcr twelve_page_parser [] False ()) =
     Inr \<lparr>fullText = js ''abc'', chunks = [js ''abc''], pagesProcessed = 12, ocrUsed = True\<rparr>"
proof -
  have clean: "cleanText (js ''abc'') = js ''abc''" by (simp add: eval_defs)
  have chunk: "chunkText (js ''abc'') = [js ''abc'']" by (simp add: eval_defs)
  have ocr1: "runOcrOnPdf no_page_count_parser [] False () = (js ''abc'', ())"
    by (simp add: no_page_count_parser_def eval_defs)
  have q1: "fst (no_page_count_parser () []) = Inr \<lparr>pdf_text = Some (js ''abc''), numpages = None\<rparr>"
    by (simp add: no_page_count_parser_def)
  have ocr2: "runOcrOnPdf twelve_page_parser [] False () = (js ''abc'', ())"
    by (simp add: twelve_page_parser_def eval_defs)
  have q2: "fst (twelve_page_parser () []) = Inr \<lparr>pdf_text = Some (js ''abc''), numpages = Some 12\<rparr>"
    by (simp add: twelve_page_parser_def)
  from extractPdfWithOcr_page_count
         [where pdf = no_page_count_parser and highPrecision = False
            and data = "\<lparr>pdf_text = Some (js ''abc''), numpages = None\<rparr>", OF ocr1] q1
  have 1: "fst (extractPdfWithOcr no_page_count_parser [] False ()) =
     Inr \<lparr>fullText = js ''abc'', chunks = [js ''abc''], pagesProcessed = 1, ocrUsed = True\<rparr>"
    by (simp add: clean chunk)
  from extractPdfWithOcr_page_count
         [where pdf = twelve_page_parser and highPrecision = False
            and data = "\<lparr>pdf_text = Some (js ''abc''), numpages = Some 12\<rparr>", OF ocr2] q2
  have 2: "fst (extractPdfWithOcr twelve_page_parser [] False ()) =
     Inr \<lparr>fullText = js ''abc'', chunks = [js ''abc''], pagesProcessed = 12, ocrUsed = True\<rparr>"
    by (simp add: clean chunk)
  from 1 2 show ?thesis by simp
qed

section \<open>Properties of the classifier\<close>

text \<open>
  Claim C9. For a sample of at least 20 code units: when \<open>letterRatio\<close> equals the
  threshold \<open>MIN_LETTER_RATIO = 0.15\<close>, neither letter-ratio check rejects it and the
  verdict is that of the word-density check alone; when \<open>letterRatio\<close> is below the
  threshold the sample is rejected.
\<close>

theorem containsRealWords_letter_ratio_boundary:
  assumes "20 \<le> length s"
  shows "(letterRatio s = MIN_LETTER_RATIO \<longrightarrow>
            (containsRealWords s \<longleftrightarrow> \<not> of_nat (totalWords s) < expectedWords s * (1 / 10))) \<and>
         (letterRatio s < MIN_LETTER_RATIO \<longrightarrow> \<not> containsRealWords s)"
  using assms by (auto simp: containsRealWords_def MIN_LETTER_RATIO_def)

theorem containsRealWords_letter_ratio_boundary_witness:
  "letterRatio (js ''abc12345678901234567'') = MIN_LETTER_RATIO \<and>
   digitRatio (js ''abc12345678901234567'') = 17 / 20 \<and>
   containsRealWords (js ''abc12345678901234567'')"
proof -
  have len: "20 \<le> length (js ''abc12345678901234567'')" by (simp add: js_def)
  have lr: "letterRatio (js ''abc12345678901234567'') = MIN_LETTER_RATIO"
    by (simp add: letterRatio_def totalLetters_def count_matches_def is_arabic_letter_def
        is_latin_letter_def MIN_LETTER_RATIO_def js_def)
  have dr: "digitRatio (js ''abc12345678901234567'') = 17 / 20"
    by (simp add: digitRatio_def count_matches_def is_digit_def js_def)
  have words: "totalWords (js ''abc12345678901234567'') = 1"
    by (simp add: totalWords_def is_arabic_word_char_def is_latin_letter_def js_def)
  have ew: "expectedWords (js ''abc12345678901234567'') = 2"
    by (simp add: expectedWords_def js_def)
  from containsRealWords_letter_ratio_boundary [OF len] lr dr
  show ?thesis by (simp add: words ew)
qed

section \<open>Properties of the normalizer and the chunker\<close>

text \<open>
  Claim C3 (idempotence of \<open>cleanText\<close>) evaluated on the input
  \<^verbatim>\<open>"a\n \n \nb"\<close>: the runs of newlines are collapsed before the lines are trimmed, so
  the two lines holding one space become empty only afterwards, and the result
  \<^verbatim>\<open>"a\n\n\nb"\<close> has three newlines in a row. A second application collapses them:
  \<open>cleanText (cleanText x)\<close> is \<^verbatim>\<open>"a\n\nb"\<close>, which differs from \<open>cleanText x\<close>.
\<close>

theorem cleanText_not_idempotent_example:
  "cleanText (js ''a'' @ [NL, SP, NL, SP, NL] @ js ''b'') = js ''a'' @ [NL, NL, NL] @ js ''b'' \<and>
   cleanText (cleanText (js ''a'' @ [NL, SP, NL, SP, NL] @ js ''b'')) = js ''a'' @ [NL, NL] @ js ''b''"
  by (simp add: eval_defs)

text \<open>
  Claim C4. Every iteration of the loop of \<open>chunkText\<close> strictly increases
  \<open>startIndex\<close> (by at least 5301), for every text and every start index, and the loop
  terminates from every state: every argument lies in the domain of \<open>chunk_loop\<close>, the
  accessible part of its call relation. \<open>chunkText\<close> is therefore a total function
  returning a (finite) list of chunks.
\<close>

theorem chunkText_terminates:
  "startIndex < next_start t (chunk_end t startIndex) \<and>
   startIndex + 5301 \<le> next_start t (chunk_end t startIndex) \<and>
   chunk_loop_dom (t, startIndex, acc)"
  using chunk_step_advances [of startIndex t] chunk_loop_total [of t startIndex acc]
  by simp

theorem chunkText_terminates_witness:
  "(0::int) < next_start (replicate 7000 0x61) (chunk_end (replicate 7000 0x61) 0) \<and>
   chunk_loop_dom (replicate 7000 0x61, 0, [])"
  using chunkText_terminates [of 0 "replicate 7000 0x61" "[]"] by simp

text \<open>
  Claim C5, as stated: every character of the input appears in some chunk. It fails on
  a text that \<open>cleanText\<close> returns unchanged, and so passes on to \<open>chunkText\<close>: the
  letter \<open>a\<close>, 7000 no-break spaces and the letter \<open>b\<close>. The chunks are \<open>a\<close> and
  \<open>b\<close>; none of the 7000 no-break spaces is in a chunk.
\<close>

theorem chunkText_covers_counterexample:
  "cleanText (0x61 # replicate 7000 0xA0 @ [0x62]) = 0x61 # replicate 7000 0xA0 @ [0x62] \<and>
   length (0x61 # replicate 7000 (0xA0 :: jschar) @ [0x62]) = 7002 \<and>
   (0x61 # replicate 7000 0xA0 @ [0x62]) ! 1 = (0xA0 :: jschar) \<and>
   chunkText (0x61 # replicate 7000 0xA0 @ [0x62]) = [[0x61], [0x62]]"
  by (simp add: cleanText_nbsp_example chunkText_nbsp_example nth_append)

text \<open>
  Claim C5, amended. Every stretch \<open>[p, q]\<close> of the input whose two ends hold characters
  other than whitespace (in the sense of \<^verbatim>\<open>trim\<close>) and are at most \<open>CHUNK_OVERLAP\<close>
  positions apart lies whole inside one chunk: some chunk is the substring \<open>[a, b)\<close> of
  the input with \<open>a \<le> p\<close> and \<open>q < b\<close>. With \<open>p = q\<close>: every character other than
  whitespace is in a chunk; and so is every whitespace character that has a character
  other than whitespace on each side, the two at most \<open>CHUNK_OVERLAP\<close> apart.
\<close>

theorem chunkText_covers_close_non_whitespace:
  assumes pq: "p \<le> q" and q: "q < length t" and close: "int q - int p \<le> CHUNK_OVERLAP"
    and np: "\<not> is_ws (t ! p)" and nq: "\<not> is_ws (t ! q)"
  shows "covered t (chunkText t) p q"
proof (cases "int (length t) \<le> CHUNK_SIZE")
  case True
  have "take (length t - 0) (drop 0 t) \<in> set (chunkText t)"
    using True q by (auto simp: chunkText_def)
  moreover have "0 \<in> {.. p}" "length t \<in> {q <.. length t}" using q by simp_all
  ultimately show ?thesis unfolding covered_def by blast
next
  case False
  then have "chunkText t = chunk_loop t 0 []" using q by (auto simp: chunkText_def)
  moreover have "covered t (chunk_loop t 0 []) p q"
    using pq q close np nq by (intro chunk_loop_covers) (simp_all add: CHUNK_OVERLAP_def)
  ultimately show ?thesis by simp
qed

theorem chunkText_covers_close_non_whitespace_witness:
  "(replicate 5995 0x61 @ 0x62 # replicate 8 SP @ 0x63 # replicate 995 0x61) ! 5995 = (0x62 :: jschar) \<and>
   (replicate 5995 0x61 @ 0x62 # replicate 8 SP @ 0x63 # replicate 995 0x61) ! 6000 = SP \<and>
   (replicate 5995 0x61 @ 0x62 # replicate 8 SP @ 0x63 # replicate 995 0x61) ! 6004 = (0x63 :: jschar) \<and>
   covered (replicate 5995 0x61 @ 0x62 # replicate 8 SP @ 0x63 # replicate 995 0x61)
     [replicate 5995 0x61 @ [0x62],
      replicate 495 0x61 @ 0x62 # replicate 8 SP @ 0x63 # replicate 995 0x61] 5995 6004"
proof -
  let ?t = "replicate 5995 (0x61 :: jschar) @ 0x62 # replicate 8 SP @ 0x63 # replicate 995 0x61"
  have p: "?t ! 5995 = 0x62" by (simp add: nth_append)
  have m: "?t ! 6000 = SP" by (simp add: nth_append nth_Cons')
  have q: "?t ! 6004 = 0x63" by (simp add: nth_append nth_Cons')
  have pq: "(5995 :: nat) \<le> 6004" by simp
  have len: "6004 < length ?t" by simp
  have close: "int 6004 - int 5995 \<le> CHUNK_OVERLAP" by (simp add: CHUNK_OVERLAP_def)
  have np: "\<not> is_ws (?t ! 5995)" unfolding p by (simp add: is_ws_def)
  have nq: "\<not> is_ws (?t ! 6004)" unfolding q by (simp add: is_ws_def)
  from chunkText_covers_close_non_whitespace [OF pq len close np nq]
  have "covered ?t [replicate 5995 0x61 @ [0x62],
      replicate 495 0x61 @ 0x62 # replicate 8 SP @ 0x63 # replicate 995 0x61] 5995 6004"
    by (simp only: chunkText_spaced_example)
  with p m q show ?thesis by blast
qed



text \<open>
  On a text with whitespace at its ends, which no call site passes, the early return of
  \<open>chunkText\<close> hands the text back untrimmed, where the loop would trim.
\<close>

lemma chunkText_untrimmed_example:
  "chunkText (js '' a '') = [js '' a ''] \<and> trim (js '' a '') = js ''a'' \<and>
   cleanText (js '' a '') = js ''a''"
  by (simp add: eval_defs)

text \<open>
  Claim C10. Every chunk returned by \<open>chunkText\<close> has at most \<open>CHUNK_SIZE + 200\<close>
  characters (6200 with the constants of the source).
\<close>

theorem chunkText_chunk_length_bound:
  "\<forall>c \<in> set (chunkText t). int (length c) \<le> CHUNK_SIZE + 200"
proof (cases "int (length t) \<le> CHUNK_SIZE")
  case True
  then show ?thesis by (auto simp: chunkText_def)
next
  case False
  have "\<forall>c \<in> set (chunk_loop t 0 []). length c \<le> 6200"
    by (rule chunk_loop_bound) simp_all
  then show ?thesis using False by (auto simp: chunkText_def CHUNK_SIZE_def)
qed

theorem chunkText_chunk_length_bound_witness:
  "chunkText (replicate 6198 0x61 @ [DOT, SP] @ replicate 800 0x61) =
     [replicate 6198 0x61 @ [DOT], replicate 499 0x61 @ [DOT, SP] @ replicate 800 0x61] \<and>
   length (replicate 6198 (0x61 :: jschar) @ [DOT]) = 6199 \<and>
   int (length (replicate 6198 (0x61 :: jschar) @ [DOT])) \<le> CHUNK_SIZE + 200 \<and>
   int (length (replicate 499 (0x61 :: jschar) @ [DOT, SP] @ replicate 800 0x61)) \<le> CHUNK_SIZE + 200"
  using chunkText_chunk_length_bound [of "replicate 6198 0x61 @ [DOT, SP] @ replicate 800 0x61"]
  unfolding chunkText_late_delimiter_example by simp

end
